theory Spec2Isabelle
  imports Complex_Main "HOL-Library.FSet"
begin

section \<open>The Pick'Em optimizer (src/backend/src/optimizer.py)\<close>

text \<open>
  Python floats are modelled as exact reals: counts, quotients and sums are computed
  without rounding. The exceptions the code can raise are values of \<open>error\<close>; a function
  that can raise returns \<open>error + 'a\<close> with \<open>Inl\<close> for the exception.
\<close>

datatype error = ValueError string | ZeroDivisionError | IndexError | StopIteration

text \<open>
  \<open>OptimizationInput\<close>. \<open>unsafe_matches\<close> is a Python set that the code turns into a list
  with \<open>list(...)\<close> before enumerating; the field holds the elements in that iteration order
  (so a well-formed value has no repetition). \<open>safe_matches\<close> is only tested for membership
  and size. \<open>match_ids\<close> defaults to \<open>None\<close>.
\<close>

record OptimizationInput =
  odds_vector :: "real list"
  safe_matches :: "string fset"
  unsafe_matches :: "string list"
  constraints :: "string \<rightharpoonup> int"
  target_score :: int
  match_ids :: "string list option"

text \<open>
  The random source: \<open>rng c i\<close> is component \<open>i\<close> of the vector that the \<open>c\<close>-th call of
  \<open>np.random.random\<close> returns. Functions that draw take the number of calls made so far
  and return the number after them.
\<close>

type_synonym rng = "nat \<Rightarrow> nat \<Rightarrow> real"

definition unit_interval :: "rng \<Rightarrow> bool" where
  "unit_interval r \<longleftrightarrow> (\<forall>c i. 0 \<le> r c i \<and> r c i < 1)"

definition rng_half :: rng where
  "rng_half c i = 1 / 2"

subsection \<open>\<open>_validate_input\<close>\<close>

definition validate_input :: "OptimizationInput \<Rightarrow> error + unit" where
  "validate_input input_data =
     (if odds_vector input_data = [] then
        Inl (ValueError ''Odds vector cannot be empty'')
      else if \<not> list_all (\<lambda>prob. 0 \<le> prob \<and> prob \<le> 1) (odds_vector input_data) then
        Inl (ValueError ''All probabilities must be between 0 and 1'')
      else if fcard (safe_matches input_data) + length (unsafe_matches input_data)
                > length (odds_vector input_data) then
        Inl (ValueError ''Total matches exceed odds vector length'')
      else if (case constraints input_data ''total_picks'' of None \<Rightarrow> 9 | Some v \<Rightarrow> v) \<noteq> 9 then
        Inl (ValueError ''Swiss format requires exactly 9 picks'')
      else Inr ())"

subsection \<open>\<open>_generate_unsafe_combinations\<close>\<close>

definition validate_swiss_constraints ::
  "OptimizationInput \<Rightarrow> (string \<rightharpoonup> string) \<Rightarrow> bool" where
  "validate_swiss_constraints input_data unsafe_combination = True"

text \<open>
  \<open>itertools.product(['team_a', 'team_b'], repeat=U)\<close> is \<open>product_lists\<close> of \<open>U\<close> copies
  of the two sides; \<open>dict(zip(keys, picks))\<close> is the map that stores the pairs from left
  to right.
\<close>

definition sides :: "string list" where
  "sides = [''team_a'', ''team_b'']"

definition generate_unsafe_combinations ::
  "OptimizationInput \<Rightarrow> (string \<rightharpoonup> string) list" where
  "generate_unsafe_combinations input_data =
     (let unsafe = unsafe_matches input_data in
      if length unsafe = 0 then [Map.empty]
      else filter (validate_swiss_constraints input_data)
             (map (\<lambda>picks. Map.empty(unsafe [\<mapsto>] picks))
                (product_lists (replicate (length unsafe) sides))))"

subsection \<open>\<open>_create_pick_vector\<close>\<close>

definition ids_or_empty :: "string list option \<Rightarrow> string list" where
  "ids_or_empty m = (case m of None \<Rightarrow> [] | Some ids \<Rightarrow> ids)"

definition favourite_bit :: "real list \<Rightarrow> nat \<Rightarrow> error + int" where
  "favourite_bit odds i =
     (if i < length odds then Inr (if odds ! i > 0.5 then 1 else 0) else Inl IndexError)"

fun pick_vector_loop ::
  "OptimizationInput \<Rightarrow> (string \<rightharpoonup> string) \<Rightarrow> (nat \<times> string) list \<Rightarrow> int list
     \<Rightarrow> error + int list" where
  "pick_vector_loop input_data unsafe_combination [] pv = Inr pv"
| "pick_vector_loop input_data unsafe_combination ((i, match_id) # rest) pv =
     (if match_id |\<in>| safe_matches input_data then
        (case favourite_bit (odds_vector input_data) i of
           Inl e \<Rightarrow> Inl e
         | Inr b \<Rightarrow> pick_vector_loop input_data unsafe_combination rest (pv @ [b]))
      else if unsafe_combination match_id \<noteq> None then
        pick_vector_loop input_data unsafe_combination rest
          (pv @ [if unsafe_combination match_id = Some ''team_a'' then 1 else 0])
      else
        (case favourite_bit (odds_vector input_data) i of
           Inl e \<Rightarrow> Inl e
         | Inr b \<Rightarrow> pick_vector_loop input_data unsafe_combination rest (pv @ [b])))"

definition create_pick_vector ::
  "OptimizationInput \<Rightarrow> (string \<rightharpoonup> string) \<Rightarrow> error + int list" where
  "create_pick_vector input_data unsafe_combination =
     pick_vector_loop input_data unsafe_combination
       (enumerate 0 (ids_or_empty (match_ids input_data))) []"

subsection \<open>\<open>_monte_carlo_simulation\<close>\<close>

definition simulate_outcomes :: "real list \<Rightarrow> (nat \<Rightarrow> real) \<Rightarrow> bool list" where
  "simulate_outcomes odds row = map (\<lambda>i. row i < odds ! i) [0..<length odds]"

definition correct_picks :: "bool list \<Rightarrow> int list \<Rightarrow> nat" where
  "correct_picks outcomes picks =
     length (filter (\<lambda>(outcome, pick). (outcome \<and> pick = 1) \<or> (\<not> outcome \<and> pick = 0))
               (zip outcomes picks))"

definition trial_scores :: "nat \<Rightarrow> real list \<Rightarrow> int list \<Rightarrow> rng \<Rightarrow> nat \<Rightarrow> nat list" where
  "trial_scores n odds picks r k =
     map (\<lambda>t. correct_picks (simulate_outcomes odds (r (k + t))) picks) [0..<n]"

fun tally :: "real list \<Rightarrow> nat list \<Rightarrow> real list" where
  "tally score_dist [] = score_dist"
| "tally score_dist (score # scores) =
     tally (if 0 \<le> score \<and> score \<le> 9 then score_dist[score := score_dist ! score + 1]
            else score_dist) scores"

text \<open>
  \<open>n\<close> is \<open>self.num_simulations\<close>. The histogram starts as ten zeros; the list comprehension
  that normalises divides its first entry first, so a zero total raises at once.
\<close>

definition monte_carlo_simulation ::
  "nat \<Rightarrow> real list \<Rightarrow> int list \<Rightarrow> rng \<Rightarrow> nat \<Rightarrow> (error + real list) \<times> nat" where
  "monte_carlo_simulation n odds picks r k =
     (let scores = trial_scores n odds picks r k;
          score_dist = tally (replicate 10 0) scores;
          total = sum_list score_dist
      in (if total = 0 then Inl ZeroDivisionError
          else Inr (map (\<lambda>count. count / total) score_dist),
          k + n))"

subsection \<open>\<open>optimize\<close>\<close>

text \<open>
  One entry of \<open>all_results\<close>: the dictionary that the loop of \<open>optimize\<close> builds for each
  combination.
\<close>

record candidate =
  combination :: "string \<rightharpoonup> string"
  pick_vector :: "int list"
  score_distribution :: "real list"
  target_probability :: real
  expected_score :: real

text \<open>
  The slice \<open>xs[t:]\<close>: a negative start counts from the end and is clipped at the front.
\<close>

definition slice_from :: "int \<Rightarrow> 'a list \<Rightarrow> 'a list" where
  "slice_from t xs =
     (if t < 0 then drop (nat (int (length xs) + t)) xs else drop (nat t) xs)"

definition weighted_sum :: "real list \<Rightarrow> real" where
  "weighted_sum sd = sum_list (map (\<lambda>(i, prob). real i * prob) (enumerate 0 sd))"

text \<open>
  The body of the loop up to the dictionary \<open>result\<close>: pick vector, simulation, target
  probability and expected score of one combination.
\<close>

definition evaluate_combination ::
  "nat \<Rightarrow> OptimizationInput \<Rightarrow> rng \<Rightarrow> (string \<rightharpoonup> string) \<Rightarrow> nat
     \<Rightarrow> (error + candidate) \<times> nat" where
  "evaluate_combination n input_data r comb k =
     (case create_pick_vector input_data comb of
        Inl e \<Rightarrow> (Inl e, k)
      | Inr pv \<Rightarrow>
          (case monte_carlo_simulation n (odds_vector input_data) pv r k of
             (Inl e, k') \<Rightarrow> (Inl e, k')
           | (Inr score_dist, k') \<Rightarrow>
               (Inr \<lparr>combination = comb,
                     pick_vector = pv,
                     score_distribution = score_dist,
                     target_probability =
                       sum_list (slice_from (target_score input_data) score_dist),
                     expected_score = weighted_sum score_dist\<rparr>,
                k')))"

fun optimize_loop ::
  "nat \<Rightarrow> OptimizationInput \<Rightarrow> rng \<Rightarrow> (string \<rightharpoonup> string) list
     \<Rightarrow> candidate option \<Rightarrow> real \<Rightarrow> candidate list \<Rightarrow> nat
     \<Rightarrow> (error + candidate option \<times> candidate list) \<times> nat" where
  "optimize_loop n input_data r [] best_combination best_score all_results k =
     (Inr (best_combination, all_results), k)"
| "optimize_loop n input_data r (comb # rest) best_combination best_score all_results k =
     (case evaluate_combination n input_data r comb k of
        (Inl e, k') \<Rightarrow> (Inl e, k')
      | (Inr result, k') \<Rightarrow>
          (if target_probability result > best_score then
             optimize_loop n input_data r rest (Some result) (target_probability result)
               (all_results @ [result]) k'
           else
             optimize_loop n input_data r rest best_combination best_score
               (all_results @ [result]) k'))"

subsection \<open>\<open>_generate_risk_analysis\<close>\<close>

record match_risk =
  risk_score :: real
  win_probability :: real
  risk_is_safe :: bool
  confidence_level :: string

record RiskAnalysis =
  total_risk_score :: real
  match_risks :: "string \<rightharpoonup> match_risk"
  strategy_confidence :: real
  volatility_index :: real

fun risk_loop ::
  "OptimizationInput \<Rightarrow> (nat \<times> string) list \<Rightarrow> RiskAnalysis \<Rightarrow> RiskAnalysis" where
  "risk_loop input_data [] ra = ra"
| "risk_loop input_data ((i, match_id) # rest) ra =
     (if i < length (odds_vector input_data) then
        (let prob = odds_vector input_data ! i;
             rs = 1 - \<bar>prob - 0.5\<bar> * 2
         in risk_loop input_data rest
              (ra\<lparr>match_risks := (match_risks ra)(match_id \<mapsto>
                     \<lparr>risk_score = rs,
                      win_probability = prob,
                      risk_is_safe = (match_id |\<in>| safe_matches input_data),
                      confidence_level =
                        (if prob > 0.75 \<or> prob < 0.25 then ''high''
                         else if prob > 0.6 \<or> prob < 0.4 then ''medium'' else ''low'')\<rparr>),
                  total_risk_score := total_risk_score ra + rs\<rparr>))
      else risk_loop input_data rest ra)"

definition generate_risk_analysis :: "OptimizationInput \<Rightarrow> candidate \<Rightarrow> RiskAnalysis" where
  "generate_risk_analysis input_data best =
     (let ra0 = \<lparr>total_risk_score = 0, match_risks = Map.empty,
                 strategy_confidence = 0, volatility_index = 0\<rparr>;
          ra1 = risk_loop input_data (enumerate 0 (ids_or_empty (match_ids input_data))) ra0;
          ra2 = (if ids_or_empty (match_ids input_data) \<noteq> [] then
                   ra1\<lparr>total_risk_score :=
                         total_risk_score ra1 / real (length (ids_or_empty (match_ids input_data)))\<rparr>
                 else ra1);
          ra3 = ra2\<lparr>strategy_confidence := min (expected_score best / 9.0) 1.0\<rparr>;
          score_dist = score_distribution best;
          mean_score = weighted_sum score_dist;
          variance = sum_list (map (\<lambda>(i, prob). (real i - mean_score)\<^sup>2 * prob)
                                 (enumerate 0 score_dist))
      in ra3\<lparr>volatility_index := sqrt variance\<rparr>)"

subsection \<open>\<open>_create_result\<close>\<close>

record alternative =
  alt_rank :: nat
  alt_expected_score :: real
  alt_target_probability :: real
  alt_picks :: "string \<rightharpoonup> string"

record OptimizationResult =
  optimal_picks :: "string list"
  result_expected_score :: real
  result_score_distribution :: "real list"
  confidence_interval :: "nat \<times> nat"
  risk_analysis :: RiskAnalysis
  alternative_strategies :: "alternative list"
  execution_time_ms :: int

fun cumsum_from :: "real \<Rightarrow> real list \<Rightarrow> real list" where
  "cumsum_from acc [] = []"
| "cumsum_from acc (x # xs) = (acc + x) # cumsum_from (acc + x) xs"

definition cumsum :: "real list \<Rightarrow> real list" where
  "cumsum xs = cumsum_from 0 xs"

text \<open>\<open>next(i for i, cum in enumerate(cumulative) if P cum)\<close>, counting from \<open>i\<close>.\<close>

fun first_index :: "(real \<Rightarrow> bool) \<Rightarrow> nat \<Rightarrow> real list \<Rightarrow> error + nat" where
  "first_index P i [] = Inl StopIteration"
| "first_index P i (x # xs) = (if P x then Inr i else first_index P (Suc i) xs)"

text \<open>\<open>ids.index(match_id)\<close> for an identifier taken from \<open>ids\<close> itself.\<close>

fun index_of :: "string list \<Rightarrow> string \<Rightarrow> nat" where
  "index_of [] x = 0"
| "index_of (y # ys) x = (if y = x then 0 else Suc (index_of ys x))"

definition favourite_side :: "real list \<Rightarrow> nat \<Rightarrow> error + string" where
  "favourite_side odds idx =
     (if idx < length odds then Inr (if odds ! idx > 0.5 then ''team_a'' else ''team_b'')
      else Inl IndexError)"

fun optimal_picks_loop ::
  "OptimizationInput \<Rightarrow> candidate \<Rightarrow> string list \<Rightarrow> string list \<Rightarrow> error + string list" where
  "optimal_picks_loop input_data best [] acc = Inr acc"
| "optimal_picks_loop input_data best (match_id # rest) acc =
     (if match_id |\<in>| safe_matches input_data then
        (case favourite_side (odds_vector input_data)
                (index_of (ids_or_empty (match_ids input_data)) match_id) of
           Inl e \<Rightarrow> Inl e
         | Inr s \<Rightarrow> optimal_picks_loop input_data best rest (acc @ [s]))
      else if combination best match_id \<noteq> None then
        optimal_picks_loop input_data best rest (acc @ [the (combination best match_id)])
      else
        (case favourite_side (odds_vector input_data)
                (index_of (ids_or_empty (match_ids input_data)) match_id) of
           Inl e \<Rightarrow> Inl e
         | Inr s \<Rightarrow> optimal_picks_loop input_data best rest (acc @ [s])))"

text \<open>
  \<open>sorted(all_results, key=target_probability, reverse=True)\<close> is stable: candidates with
  equal keys keep their order, which is a stable ascending sort on the negated key.
\<close>

definition create_result ::
  "OptimizationInput \<Rightarrow> candidate option \<Rightarrow> candidate list \<Rightarrow> int
     \<Rightarrow> error + OptimizationResult" where
  "create_result input_data best_combination all_results execution_time =
     (case best_combination of
        None \<Rightarrow> Inl (ValueError ''No valid combinations found'')
      | Some best \<Rightarrow>
          (let cumulative = cumsum (score_distribution best) in
           case first_index (\<lambda>cum. cum \<ge> 0.025) 0 cumulative of
             Inl e \<Rightarrow> Inl e
           | Inr ci_lower \<Rightarrow>
               (case first_index (\<lambda>cum. cum \<ge> 0.975) 0 cumulative of
                  Inl e \<Rightarrow> Inl e
                | Inr ci_upper \<Rightarrow>
                    (let ra = generate_risk_analysis input_data best;
                         sorted_results =
                           sort_key (\<lambda>x. - target_probability x) all_results;
                         alternatives =
                           map (\<lambda>(i, result).
                                  \<lparr>alt_rank = i + 2,
                                   alt_expected_score = expected_score result,
                                   alt_target_probability = target_probability result,
                                   alt_picks = combination result\<rparr>)
                               (enumerate 0 (take 3 (drop 1 sorted_results)))
                     in case optimal_picks_loop input_data best
                               (ids_or_empty (match_ids input_data)) [] of
                          Inl e \<Rightarrow> Inl e
                        | Inr picks \<Rightarrow>
                            Inr \<lparr>optimal_picks = picks,
                                 result_expected_score = expected_score best,
                                 result_score_distribution = score_distribution best,
                                 confidence_interval = (ci_lower, ci_upper),
                                 risk_analysis = ra,
                                 alternative_strategies = alternatives,
                                 execution_time_ms = execution_time\<rparr>))))"

text \<open>
  \<open>optimize\<close>: \<open>n\<close> is \<open>self.num_simulations\<close>, \<open>execution_time\<close> the elapsed time read
  from the clock, \<open>k\<close> the number of random vectors drawn before the call. The second
  component of the result is the number drawn after it, also when the call raises.
\<close>

definition optimize ::
  "nat \<Rightarrow> OptimizationInput \<Rightarrow> rng \<Rightarrow> int \<Rightarrow> nat \<Rightarrow> (error + OptimizationResult) \<times> nat" where
  "optimize n input_data r execution_time k =
     (case validate_input input_data of
        Inl e \<Rightarrow> (Inl e, k)
      | Inr _ \<Rightarrow>
          (case optimize_loop n input_data r (generate_unsafe_combinations input_data)
                  None (- 1) [] k of
             (Inl e, k') \<Rightarrow> (Inl e, k')
           | (Inr (best_combination, all_results), k') \<Rightarrow>
               (create_result input_data best_combination all_results execution_time, k')))"

section \<open>The match classifier (src/backend/src/odds_ingestion.py)\<close>

text \<open>
  \<open>OddsData\<close> without the timestamp and the raw payload, which the classifier never reads.
\<close>

record OddsData =
  od_match_id :: string
  team_a :: string
  team_b :: string
  team_a_odds :: real
  team_b_odds :: real
  source :: string

text \<open>
  The dictionary \<open>_classify_single_match\<close> returns. Its last three keys are absent when
  the list of observations is empty.
\<close>

record MatchClassification =
  is_safe :: bool
  confidence :: real
  implied_win_rate :: real
  consensus_favorite :: "string option"
  source_agreement :: real
  consensus_team_a_prob :: "real option"
  consensus_team_b_prob :: "real option"
  sources_count :: "nat option"

definition weights :: "string \<Rightarrow> real" where
  "weights src =
     (if src = ''bookmaker_consensus'' then 0.4
      else if src = ''hltv_elo'' then 0.3
      else if src = ''community_picks'' then 0.2
      else if src = ''mock_data'' then 0.1
      else 0.1)"

fun consensus_loop ::
  "OddsData list \<Rightarrow> real \<times> real \<times> real \<times> string list \<Rightarrow> real \<times> real \<times> real \<times> string list" where
  "consensus_loop [] acc = acc"
| "consensus_loop (odds # rest) (wa, wb, total_weight, favorites) =
     (let weight = weights (source odds) in
      consensus_loop rest
        (wa + team_a_odds odds * weight,
         wb + team_b_odds odds * weight,
         total_weight + weight,
         favorites @ [if team_a_odds odds > team_b_odds odds then team_a odds
                      else team_b odds]))"

text \<open>
  \<open>max(set(favorites), key=favorites.count)\<close>: an element with the largest count. Which
  of several such elements is returned depends on the set's iteration order; the code
  uses only its count, which is the same for all of them.
\<close>

fun most_common :: "string list \<Rightarrow> string list \<Rightarrow> string \<Rightarrow> string" where
  "most_common favorites [] best = best"
| "most_common favorites (x # xs) best =
     most_common favorites xs
       (if count_list favorites x > count_list favorites best then x else best)"

definition classify_single_match :: "real \<Rightarrow> OddsData list \<Rightarrow> MatchClassification" where
  "classify_single_match safe_threshold match_odds =
     (if match_odds = [] then
        \<lparr>is_safe = False, confidence = 0.0, implied_win_rate = 0.5,
         consensus_favorite = None, source_agreement = 0.0,
         consensus_team_a_prob = None, consensus_team_b_prob = None,
         sources_count = None\<rparr>
      else
        (case consensus_loop match_odds (0, 0, 0, []) of
           (wa, wb, total_weight, favorites) \<Rightarrow>
             (let pa = (if total_weight > 0 then wa / total_weight else 0.5);
                  pb = (if total_weight > 0 then wb / total_weight else 0.5);
                  fav = (if pa > pb then team_a (hd match_odds) else team_b (hd match_odds));
                  rate = (if pa > pb then pa else pb);
                  agreement =
                    (if favorites \<noteq> [] then
                       real (count_list favorites
                               (most_common favorites (remdups favorites) (hd favorites)))
                         / real (length favorites)
                     else 0.0)
              in \<lparr>is_safe = (rate \<ge> safe_threshold),
                  confidence = min rate (1 - rate) * 2,
                  implied_win_rate = rate,
                  consensus_favorite = Some fav,
                  source_agreement = agreement,
                  consensus_team_a_prob = Some pa,
                  consensus_team_b_prob = Some pb,
                  sources_count = Some (length match_odds)\<rparr>)))"

section \<open>Predicates used in the statements\<close>

text \<open>
  Every pick is certain to be correct: side A is picked where it wins with probability 1,
  side B where side A wins with probability 0; both vectors have the same length.
\<close>

definition always_correct :: "real list \<Rightarrow> int list \<Rightarrow> bool" where
  "always_correct odds picks =
     list_all2 (\<lambda>p pick. (pick = 1 \<and> p = 1) \<or> (pick = 0 \<and> p = 0)) odds picks"

text \<open>
  \<open>first_maximum b results\<close>: \<open>b\<close> stands in \<open>results\<close> at a position before which every
  candidate has a strictly smaller target probability, and no candidate of \<open>results\<close> has
  a larger one. \<open>selected\<close> is the state of the selection loop of \<open>optimize\<close>: nothing
  chosen yet and the initial score \<open>-1\<close>, or the first maximum so far and its score.
\<close>

definition first_maximum :: "candidate \<Rightarrow> candidate list \<Rightarrow> bool" where
  "first_maximum b results \<longleftrightarrow>
     (\<exists>i<length results. results ! i = b
        \<and> (\<forall>j<i. target_probability (results ! j) < target_probability b)
        \<and> (\<forall>c\<in>set results. target_probability c \<le> target_probability b))"

definition selected :: "candidate option \<Rightarrow> real \<Rightarrow> candidate list \<Rightarrow> bool" where
  "selected best best_score results \<longleftrightarrow>
     (case best of
        None \<Rightarrow> best_score = - 1 \<and> (\<forall>c\<in>set results. target_probability c \<le> - 1)
      | Some b \<Rightarrow> best_score = target_probability b \<and> first_maximum b results)"

section \<open>Requests used as examples\<close>

definition two_unsafe_request :: OptimizationInput where
  "two_unsafe_request =
     \<lparr>odds_vector = [9 / 10, 1 / 2], safe_matches = {||},
      unsafe_matches = [''m1'', ''m2''], constraints = Map.empty, target_score = 1,
      match_ids = Some [''m1'', ''m2'']\<rparr>"

definition all_safe_request :: OptimizationInput where
  "all_safe_request =
     \<lparr>odds_vector = [4 / 5, 1 / 5], safe_matches = {|''m1'', ''m2''|},
      unsafe_matches = [], constraints = Map.empty, target_score = 1,
      match_ids = Some [''m1'', ''m2'']\<rparr>"

definition empty_request :: OptimizationInput where
  "empty_request =
     \<lparr>odds_vector = [], safe_matches = {||}, unsafe_matches = [],
      constraints = Map.empty, target_score = 0, match_ids = Some []\<rparr>"

definition bad_probability_request :: OptimizationInput where
  "bad_probability_request =
     \<lparr>odds_vector = [1 / 2, 3 / 2], safe_matches = {|''m1''|}, unsafe_matches = [''m2''],
      constraints = Map.empty, target_score = 1, match_ids = Some [''m1'', ''m2'']\<rparr>"

definition overfull_request :: OptimizationInput where
  "overfull_request =
     \<lparr>odds_vector = [1 / 2], safe_matches = {|''m1''|}, unsafe_matches = [''m2''],
      constraints = Map.empty, target_score = 1, match_ids = Some [''m1'']\<rparr>"

definition tie_request :: OptimizationInput where
  "tie_request =
     \<lparr>odds_vector = [0, 1], safe_matches = {|''m2''|}, unsafe_matches = [''m1''],
      constraints = Map.empty, target_score = 1, match_ids = Some [''m1'', ''m2'']\<rparr>"

definition toss_up_request :: OptimizationInput where
  "toss_up_request =
     \<lparr>odds_vector = [1 / 2], safe_matches = {|''m1''|}, unsafe_matches = [],
      constraints = Map.empty, target_score = 1, match_ids = Some [''m1'']\<rparr>"

definition single_match_request :: OptimizationInput where
  "single_match_request =
     \<lparr>odds_vector = [1], safe_matches = {|''m1''|}, unsafe_matches = [],
      constraints = Map.empty, target_score = 1, match_ids = Some [''m1'']\<rparr>"

definition wide_request :: OptimizationInput where
  "wide_request =
     \<lparr>odds_vector = replicate 21 (1 / 2), safe_matches = {||},
      unsafe_matches =
        [''u01'', ''u02'', ''u03'', ''u04'', ''u05'', ''u06'', ''u07'', ''u08'', ''u09'',
         ''u10'', ''u11'', ''u12'', ''u13'', ''u14'', ''u15'', ''u16'', ''u17'', ''u18'',
         ''u19'', ''u20'', ''u21''],
      constraints = Map.empty, target_score = 0, match_ids = None\<rparr>"

text \<open>
  What the selection loop returns, reduced to numbers: the expected score of the chosen
  candidate, and the target probability and expected score of every candidate in the
  order of enumeration.
\<close>

definition selection_summary ::
  "(error + candidate option \<times> candidate list) \<times> nat
     \<Rightarrow> error + real option \<times> (real \<times> real) list" where
  "selection_summary out =
     (case fst out of
        Inl e \<Rightarrow> Inl e
      | Inr (best, results) \<Rightarrow>
          Inr (map_option expected_score best,
               map (\<lambda>c. (target_probability c, expected_score c)) results))"

section \<open>Observations used as examples\<close>

definition even_observation :: OddsData where
  "even_observation =
     \<lparr>od_match_id = ''m1'', team_a = ''alpha'', team_b = ''beta'',
      team_a_odds = 1 / 2, team_b_odds = 1 / 2, source = ''bookmaker_consensus''\<rparr>"

definition certain_observation :: OddsData where
  "certain_observation =
     \<lparr>od_match_id = ''m1'', team_a = ''alpha'', team_b = ''beta'',
      team_a_odds = 1, team_b_odds = 0, source = ''bookmaker_consensus''\<rparr>"

section \<open>Properties of the simulation\<close>



lemma replicate_10: "replicate 10 x = [x, x, x, x, x, x, x, x, x, x]"
  by (simp add: numeral_eq_Suc)

lemma length_tally: "length (tally d ss) = length d"
  by (induction ss arbitrary: d) auto

lemma sum_list_bump:
  fixes d :: "real list"
  assumes "i < length d"
  shows "sum_list (d[i := d ! i + 1]) = sum_list d + 1"
  using assms
proof (induction d arbitrary: i)
  case Nil
  then show ?case by simp
next
  case (Cons x d)
  then show ?case by (cases i) simp_all
qed

lemma sum_list_tally:
  "length d = 10 \<Longrightarrow>
     sum_list (tally d ss) = sum_list d + real (length (filter (\<lambda>s. s \<le> 9) ss))"
proof (induction ss arbitrary: d)
  case Nil
  then show ?case by simp
next
  case (Cons s ss)
  show ?case
  proof (cases "s \<le> 9")
    case True
    then have "s < length d" using Cons.prems by simp
    then have "sum_list (d[s := d ! s + 1]) = sum_list d + 1" by (rule sum_list_bump)
    with True Cons.IH[of "d[s := d ! s + 1]"] Cons.prems show ?thesis by simp
  next
    case False
    with Cons.IH[of d] Cons.prems show ?thesis by simp
  qed
qed

lemma tally_dropped: "\<forall>s\<in>set ss. 9 < s \<Longrightarrow> tally d ss = d"
  by (induction ss arbitrary: d) auto

lemma tally_replicate:
  "N \<le> 9 \<Longrightarrow> N < length d \<Longrightarrow> tally d (replicate n N) = d[N := d ! N + real n]"
proof (induction n arbitrary: d)
  case 0
  then show ?case by simp
next
  case (Suc n)
  have "tally d (replicate (Suc n) N) = tally (d[N := d ! N + 1]) (replicate n N)"
    using Suc.prems by simp
  also have "\<dots> = (d[N := d ! N + 1])[N := (d[N := d ! N + 1]) ! N + real n]"
    using Suc.prems by (intro Suc.IH) simp_all
  also have "\<dots> = d[N := d ! N + real (Suc n)]"
    using Suc.prems by (simp add: add.assoc)
  finally show ?case .
qed

lemma outcomes_always_correct:
  assumes "always_correct odds picks" and "unit_interval r" and "i < length odds"
  shows "(r c i < odds ! i) = (picks ! i = 1)" and "picks ! i = 1 \<or> picks ! i = 0"
proof -
  have h: "(picks ! i = 1 \<and> odds ! i = 1) \<or> (picks ! i = 0 \<and> odds ! i = 0)"
    using assms(1,3) unfolding always_correct_def by (auto dest: list_all2_nthD)
  have b: "0 \<le> r c i" "r c i < 1" using assms(2) by (simp_all add: unit_interval_def)
  from h b show "(r c i < odds ! i) = (picks ! i = 1)" by auto
  from h show "picks ! i = 1 \<or> picks ! i = 0" by auto
qed

lemma correct_picks_always_correct:
  assumes "always_correct odds picks" and "unit_interval r"
  shows "correct_picks (simulate_outcomes odds (r c)) picks = length odds"
proof -
  have len: "length picks = length odds"
    using assms(1) by (simp add: always_correct_def list_all2_lengthD)
  let ?P = "\<lambda>(outcome, pick::int). (outcome \<and> pick = 1) \<or> (\<not> outcome \<and> pick = 0)"
  let ?zs = "zip (simulate_outcomes odds (r c)) picks"
  have "\<forall>z\<in>set ?zs. ?P z"
  proof
    fix z assume "z \<in> set ?zs"
    then obtain i where i: "i < length odds" "z = (r c i < odds ! i, picks ! i)"
      using len by (auto simp: set_zip simulate_outcomes_def)
    from outcomes_always_correct(1)[OF assms i(1), of c]
      outcomes_always_correct(2)[OF assms i(1)] i(2)
    show "?P z" by auto
  qed
  then have "filter ?P ?zs = ?zs" by (simp add: filter_id_conv)
  then have "correct_picks (simulate_outcomes odds (r c)) picks = length ?zs"
    by (simp add: correct_picks_def)
  also have "\<dots> = length odds" using len by (simp add: simulate_outcomes_def)
  finally show ?thesis .
qed

lemma trial_scores_always_correct:
  assumes "always_correct odds picks" and "unit_interval r"
  shows "trial_scores n odds picks r k = replicate n (length odds)"
  unfolding trial_scores_def
  by (simp add: correct_picks_always_correct[OF assms] map_replicate_const)

lemma unit_interval_rng_half: "unit_interval rng_half"
  by (simp add: unit_interval_def rng_half_def)

text \<open>
  C10. The simulation tallies the trial scores into a histogram of ten buckets (scores 0
  to 9) and drops every larger score; it then divides by the histogram's total without
  testing it. On a slate of more than nine matches where every pick is certain to be
  correct, every trial scores the slate length, the histogram stays all zero, and the
  call raises \<open>ZeroDivisionError\<close> after drawing its \<open>n\<close> random vectors.
\<close>
theorem histogram_overflow_raises:
  assumes "always_correct odds picks" and "unit_interval r" and "9 < length odds"
  shows "length (tally (replicate 10 0) (trial_scores n odds picks r k)) = 10
         \<and> tally (replicate 10 0) (trial_scores n odds picks r k) = replicate 10 0
         \<and> monte_carlo_simulation n odds picks r k = (Inl ZeroDivisionError, k + n)"
proof -
  have ts: "trial_scores n odds picks r k = replicate n (length odds)"
    using assms(1,2) by (rule trial_scores_always_correct)
  have t: "tally (replicate 10 0) (trial_scores n odds picks r k) = replicate 10 0"
    unfolding ts using assms(3) by (intro tally_dropped) simp
  have "sum_list (replicate 10 (0::real)) = 0" by (simp add: sum_list_replicate)
  with t show ?thesis by (simp add: monte_carlo_simulation_def Let_def)
qed

theorem histogram_overflow_raises_witness:
  "always_correct (replicate 10 1) (replicate 10 1) \<and> unit_interval rng_half
   \<and> 9 < length (replicate 10 (1::real))
   \<and> monte_carlo_simulation 10000 (replicate 10 1) (replicate 10 1) rng_half 0
       = (Inl ZeroDivisionError, 10000)"
proof -
  have a: "always_correct (replicate 10 1) (replicate 10 1)"
    by (simp add: always_correct_def replicate_10)
  have l: "9 < length (replicate 10 (1::real))" by simp
  show ?thesis
    using a unit_interval_rng_half l
      histogram_overflow_raises[OF a unit_interval_rng_half l, of 10000 0]
    by simp
qed


lemma sum_list_zeros: "sum_list (replicate m (0::real)) = 0"
  by (simp add: sum_list_replicate)

lemma sum_list_normalise:
  fixes d :: "real list"
  shows "c \<noteq> 0 \<Longrightarrow> sum_list (map (\<lambda>count. count / c) d) = sum_list d / c"
  by (induction d) (simp_all add: add_divide_distrib)

lemma correct_picks_le:
  "correct_picks outcomes picks \<le> min (length outcomes) (length picks)"
proof -
  have "correct_picks outcomes picks \<le> length (zip outcomes picks)"
    unfolding correct_picks_def by (rule length_filter_le)
  then show ?thesis by simp
qed

lemma trial_scores_le:
  "s \<in> set (trial_scores n odds picks r k) \<Longrightarrow> s \<le> min (length odds) (length picks)"
proof -
  assume "s \<in> set (trial_scores n odds picks r k)"
  then obtain t where "s = correct_picks (simulate_outcomes odds (r (k + t))) picks"
    by (auto simp: trial_scores_def)
  with correct_picks_le[of "simulate_outcomes odds (r (k + t))" picks]
  show ?thesis by (simp add: simulate_outcomes_def)
qed

lemma length_trial_scores: "length (trial_scores n odds picks r k) = n"
  by (simp add: trial_scores_def)

lemma tally_nonneg:
  "\<forall>x\<in>set d. 0 \<le> x \<Longrightarrow> \<forall>x\<in>set (tally d ss). 0 \<le> x"
proof (induction ss arbitrary: d)
  case Nil
  then show ?case by simp
next
  case (Cons s ss)
  show ?case
  proof (cases "s \<le> 9 \<and> s < length d")
    case True
    have "\<forall>x\<in>set (d[s := d ! s + 1]). 0 \<le> x"
    proof
      fix x assume "x \<in> set (d[s := d ! s + 1])"
      then have "x = d ! s + 1 \<or> x \<in> set d"
        using set_update_subset_insert[of d s "d ! s + 1"] by auto
      moreover have "0 \<le> d ! s" using True Cons.prems by simp
      ultimately show "0 \<le> x" using Cons.prems by auto
    qed
    from Cons.IH[OF this] True show ?thesis by simp
  next
    case False
    then have "(if 0 \<le> s \<and> s \<le> 9 then d[s := d ! s + 1] else d) = d"
      by (auto simp: list_update_beyond)
    with Cons.IH[OF Cons.prems] show ?thesis by simp
  qed
qed

lemma simulation_short_slate:
  assumes "length odds \<le> 9 \<or> length picks \<le> 9" and "0 < n"
  shows "\<exists>d. monte_carlo_simulation n odds picks r k = (Inr d, k + n)
             \<and> length d = 10 \<and> sum_list d = 1 \<and> (\<forall>x\<in>set d. 0 \<le> x)"
proof -
  let ?ss = "trial_scores n odds picks r k"
  let ?h = "tally (replicate 10 0) ?ss"
  have "\<forall>s\<in>set ?ss. s \<le> 9" using trial_scores_le assms(1) by fastforce
  then have "filter (\<lambda>s. s \<le> 9) ?ss = ?ss" by (simp add: filter_id_conv)
  then have total: "sum_list ?h = real n"
    using sum_list_tally[of "replicate 10 0" ?ss]
    by (simp add: length_trial_scores sum_list_zeros)
  then have nz: "sum_list ?h \<noteq> 0" using assms(2) by simp
  have nn: "\<forall>x\<in>set ?h. 0 \<le> x" by (rule tally_nonneg) simp
  let ?d = "map (\<lambda>count. count / sum_list ?h) ?h"
  have "monte_carlo_simulation n odds picks r k = (Inr ?d, k + n)"
    using nz by (simp add: monte_carlo_simulation_def Let_def)
  moreover have "length ?d = 10" by (simp add: length_tally)
  moreover have "sum_list ?d = 1" using nz by (simp add: sum_list_normalise)
  moreover have "\<forall>x\<in>set ?d. 0 \<le> x" using nn total by auto
  ultimately show ?thesis by blast
qed

text \<open>
  C2, as the code has it. For a probability vector and a pick vector of common length
  \<open>N \<le> 9\<close> and a positive number of trials, the simulation returns a distribution of
  length 10 (one entry for each score 0 to 9, whatever \<open>N\<close> is) whose entries sum to 1
  in exact arithmetic.
\<close>
theorem simulate_ten_buckets_sum_one:
  assumes "length picks = length odds" and "length odds \<le> 9" and "0 < n"
  shows "\<exists>d. monte_carlo_simulation n odds picks r k = (Inr d, k + n)
             \<and> length d = 10 \<and> sum_list d = 1"
  using simulation_short_slate[OF disjI1[OF assms(2)] assms(3)] by blast

theorem simulate_ten_buckets_sum_one_witness:
  "length [1, 0 :: int] = length [3 / 4, 1 / 4 :: real] \<and> length [3 / 4, 1 / 4 :: real] \<le> 9
   \<and> (0::nat) < 5
   \<and> (\<exists>d. monte_carlo_simulation 5 [3 / 4, 1 / 4] [1, 0] rng_half 0 = (Inr d, 0 + 5)
           \<and> length d = 10 \<and> sum_list d = 1)"
  using simulate_ten_buckets_sum_one[of "[1, 0]" "[3 / 4, 1 / 4]" 5 rng_half 0] by simp

text \<open>
  C2 as stated fails: for one match and one trial the distribution has ten entries, not
  \<open>N + 1 = 2\<close>.
\<close>
theorem simulate_length_counterexample:
  "monte_carlo_simulation 1 [1] [1] rng_half 0 = (Inr [0, 1, 0, 0, 0, 0, 0, 0, 0, 0], 1)
   \<and> length [0, 1, 0, 0, 0, 0, 0, 0, 0, 0 :: real] \<noteq> length [1 :: real] + 1"
  by (simp add: monte_carlo_simulation_def trial_scores_def simulate_outcomes_def
        correct_picks_def rng_half_def replicate_10)

text \<open>
  C9, as the code has it. For a slate of \<open>N \<le> 9\<close> matches, draws in \<open>[0, 1)\<close> and at
  least one trial, if every picked side wins with probability 1 then the simulation
  returns the ten-entry distribution with mass 1 at score \<open>N\<close> and 0 elsewhere.
\<close>
theorem certain_picks_all_mass_at_N:
  assumes "always_correct odds picks" and "unit_interval r"
    and "length odds \<le> 9" and "0 < n"
  shows "monte_carlo_simulation n odds picks r k
           = (Inr ((replicate 10 0)[length odds := 1]), k + n)"
proof -
  let ?N = "length odds"
  have ts: "trial_scores n odds picks r k = replicate n ?N"
    using assms(1,2) by (rule trial_scores_always_correct)
  have h: "tally (replicate 10 0) (replicate n ?N) = (replicate 10 0)[?N := real n]"
    using tally_replicate[of ?N "replicate 10 0" n] assms(3) by simp
  have "sum_list (tally (replicate 10 0) (replicate n ?N)) = real n"
    using sum_list_tally[of "replicate 10 0" "replicate n ?N"] assms(3)
    by (simp add: sum_list_zeros)
  then have total: "sum_list ((replicate 10 0)[?N := real n]) = real n"
    using h by simp
  have "map (\<lambda>count. count / real n) ((replicate 10 0)[?N := real n])
          = (replicate 10 0)[?N := 1]"
    using assms(4) by (simp add: map_update)
  with total assms(4) show ?thesis
    by (simp add: monte_carlo_simulation_def Let_def ts h)
qed

theorem certain_picks_all_mass_at_N_witness:
  "always_correct [1, 0, 1] [1, 0, 1] \<and> unit_interval rng_half
   \<and> length [1, 0, 1 :: real] \<le> 9 \<and> (0::nat) < 10000
   \<and> monte_carlo_simulation 10000 [1, 0, 1] [1, 0, 1] rng_half 0
        = (Inr [0, 0, 0, 1, 0, 0, 0, 0, 0, 0], 10000)"
proof -
  have a: "always_correct [1, 0, 1] [1, 0, 1]" by (simp add: always_correct_def)
  have l: "length [1, 0, 1 :: real] \<le> 9" by simp
  have n: "(0::nat) < 10000" by simp
  show ?thesis
    using a unit_interval_rng_half l n
      certain_picks_all_mass_at_N[OF a unit_interval_rng_half l n, of 0]
    by (simp add: replicate_10)
qed

text \<open>
  C9 as stated fails for \<open>N = 10\<close>: every trial scores 10, no bucket counts it, and the
  call raises instead of returning a distribution.
\<close>
theorem certain_picks_counterexample:
  "always_correct (replicate 10 1) (replicate 10 1)
   \<and> monte_carlo_simulation 2 (replicate 10 1) (replicate 10 1) rng_half 0
        = (Inl ZeroDivisionError, 2)"
  by (simp add: always_correct_def monte_carlo_simulation_def trial_scores_def
        simulate_outcomes_def correct_picks_def rng_half_def replicate_10 upt_conv_Cons)

section \<open>Properties of the enumerator and of validation\<close>

lemma dict_of_zip:
  "length ks = length vs \<Longrightarrow> distinct ks \<Longrightarrow> Map.empty(ks [\<mapsto>] vs) = map_of (zip ks vs)"
proof (induction ks vs rule: list_induct2)
  case Nil
  then show ?case by simp
next
  case (Cons k ks v vs)
  have "Map.empty(k # ks [\<mapsto>] v # vs) = (Map.empty(ks [\<mapsto>] vs))(k \<mapsto> v)"
    using Cons.prems by (simp add: map_upds_twist)
  also have "\<dots> = (map_of (zip ks vs))(k \<mapsto> v)"
    using Cons.IH Cons.prems by simp
  finally show ?case by simp
qed

lemma length_side_products: "length (product_lists (replicate U sides)) = 2 ^ U"
  by (induction U) (simp_all add: sides_def)

lemma side_products_elem:
  assumes "picks \<in> set (product_lists (replicate U sides))"
  shows "length picks = U" and "\<forall>i<U. picks ! i = ''team_a'' \<or> picks ! i = ''team_b''"
proof -
  show len: "length picks = U"
    using in_set_product_lists_length[OF assms] by simp
  have "list_all2 (\<lambda>x ys. x \<in> set ys) picks (replicate U sides)"
    using assms by (simp add: product_lists_set)
  then show "\<forall>i<U. picks ! i = ''team_a'' \<or> picks ! i = ''team_b''"
    using len by (auto simp: list_all2_conv_all_nth sides_def)
qed

lemma distinct_side_products: "distinct (product_lists (replicate U sides))"
  by (rule distinct_product_lists) (simp add: sides_def)

lemma swiss_filter: "filter (validate_swiss_constraints input_data) cs = cs"
  by (simp add: validate_swiss_constraints_def)

lemma combinations_eq:
  "generate_unsafe_combinations input_data =
     map (\<lambda>picks. Map.empty(unsafe_matches input_data [\<mapsto>] picks))
       (product_lists (replicate (length (unsafe_matches input_data)) sides))"
  by (cases "unsafe_matches input_data")
     (simp_all add: generate_unsafe_combinations_def swiss_filter Let_def)

lemma length_combinations:
  "length (generate_unsafe_combinations input_data) = 2 ^ length (unsafe_matches input_data)"
  by (simp add: combinations_eq length_side_products)

lemma distinct_combinations:
  assumes "distinct (unsafe_matches input_data)"
  shows "distinct (generate_unsafe_combinations input_data)"
proof -
  let ?ks = "unsafe_matches input_data"
  let ?ps = "product_lists (replicate (length ?ks) sides)"
  have "inj_on (\<lambda>picks. Map.empty(?ks [\<mapsto>] picks)) (set ?ps)"
  proof (rule inj_onI)
    fix p q assume p: "p \<in> set ?ps" and q: "q \<in> set ?ps"
      and eq: "Map.empty(?ks [\<mapsto>] p) = Map.empty(?ks [\<mapsto>] q)"
    have lp: "length p = length ?ks" and lq: "length q = length ?ks"
      using side_products_elem(1)[OF p] side_products_elem(1)[OF q] by simp_all
    have "map_of (zip ?ks p) = map_of (zip ?ks q)"
      using eq dict_of_zip[of ?ks p] dict_of_zip[of ?ks q] lp lq assms by simp
    then show "p = q" using lp lq assms by (rule map_of_zip_inject[rotated 3])
  qed
  then show ?thesis
    by (simp add: combinations_eq distinct_map distinct_side_products)
qed

lemma combination_total:
  assumes "distinct (unsafe_matches input_data)"
    and "c \<in> set (generate_unsafe_combinations input_data)"
  shows "dom c = set (unsafe_matches input_data)"
    and "\<forall>m\<in>set (unsafe_matches input_data). c m = Some ''team_a'' \<or> c m = Some ''team_b''"
proof -
  let ?ks = "unsafe_matches input_data"
  obtain p where p: "p \<in> set (product_lists (replicate (length ?ks) sides))"
    and c: "c = Map.empty(?ks [\<mapsto>] p)"
    using assms(2) by (auto simp: combinations_eq)
  have lp: "length p = length ?ks" using side_products_elem(1)[OF p] .
  show "dom c = set ?ks" using c lp by (simp add: dom_map_upds)
  have cm: "c = map_of (zip ?ks p)" using c dict_of_zip[of ?ks p] lp assms(1) by simp
  show "\<forall>m\<in>set ?ks. c m = Some ''team_a'' \<or> c m = Some ''team_b''"
  proof
    fix m assume "m \<in> set ?ks"
    then obtain i where i: "i < length ?ks" "m = ?ks ! i" by (auto simp: in_set_conv_nth)
    have "c m = Some (p ! i)"
      using map_of_zip_nth[of ?ks p i] lp assms(1) i cm by simp
    with side_products_elem(2)[OF p] i(1)
    show "c m = Some ''team_a'' \<or> c m = Some ''team_b''" by auto
  qed
qed

text \<open>
  C3. For a set of \<open>U\<close> unsafe match identifiers (a list without repetition), the
  enumerator returns exactly \<open>2 ^ U\<close> combinations, no two of them equal; each combination
  is defined on exactly the unsafe matches and assigns each of them \<open>team_a\<close> or
  \<open>team_b\<close>; for \<open>U = 0\<close> it returns the single empty combination.
\<close>
theorem enumerator_two_power_U:
  assumes "distinct (unsafe_matches input_data)"
  shows "length (generate_unsafe_combinations input_data)
           = 2 ^ length (unsafe_matches input_data)
         \<and> distinct (generate_unsafe_combinations input_data)
         \<and> (\<forall>c\<in>set (generate_unsafe_combinations input_data).
               dom c = set (unsafe_matches input_data)
               \<and> (\<forall>m\<in>set (unsafe_matches input_data).
                     c m = Some ''team_a'' \<or> c m = Some ''team_b''))
         \<and> (unsafe_matches input_data = []
               \<longrightarrow> generate_unsafe_combinations input_data = [Map.empty])"
proof -
  have "unsafe_matches input_data = [] \<longrightarrow> generate_unsafe_combinations input_data = [Map.empty]"
    by (simp add: generate_unsafe_combinations_def)
  then show ?thesis
    using length_combinations[of input_data] distinct_combinations[OF assms]
      combination_total[OF assms]
    by blast
qed


theorem enumerator_two_power_U_witness:
  "distinct (unsafe_matches two_unsafe_request)
   \<and> length (generate_unsafe_combinations two_unsafe_request) = 4
   \<and> distinct (generate_unsafe_combinations two_unsafe_request)
   \<and> list_all (\<lambda>c. dom c = {''m1'', ''m2''}
                    \<and> (c ''m1'' = Some ''team_a'' \<or> c ''m1'' = Some ''team_b'')
                    \<and> (c ''m2'' = Some ''team_a'' \<or> c ''m2'' = Some ''team_b''))
        (generate_unsafe_combinations two_unsafe_request)
   \<and> distinct (unsafe_matches all_safe_request)
   \<and> generate_unsafe_combinations all_safe_request = [Map.empty]"
proof -
  have u2: "unsafe_matches two_unsafe_request = [''m1'', ''m2'']"
    by (simp add: two_unsafe_request_def)
  have u0: "unsafe_matches all_safe_request = []"
    by (simp add: all_safe_request_def)
  have d2: "distinct (unsafe_matches two_unsafe_request)" unfolding u2 by simp
  have d0: "distinct (unsafe_matches all_safe_request)" unfolding u0 by simp
  note t2 = enumerator_two_power_U[OF d2, unfolded u2]
  note t0 = enumerator_two_power_U[OF d0, unfolded u0]
  have "length (generate_unsafe_combinations two_unsafe_request) = 4"
    using t2[THEN conjunct1] by simp
  moreover have "distinct (generate_unsafe_combinations two_unsafe_request)"
    using t2[THEN conjunct2, THEN conjunct1] .
  moreover have "list_all (\<lambda>c. dom c = {''m1'', ''m2''}
                    \<and> (c ''m1'' = Some ''team_a'' \<or> c ''m1'' = Some ''team_b'')
                    \<and> (c ''m2'' = Some ''team_a'' \<or> c ''m2'' = Some ''team_b''))
        (generate_unsafe_combinations two_unsafe_request)"
    using t2[THEN conjunct2, THEN conjunct2, THEN conjunct1]
    unfolding list_all_iff by simp
  moreover have "generate_unsafe_combinations all_safe_request = [Map.empty]"
    using t0[THEN conjunct2, THEN conjunct2, THEN conjunct2] by simp
  ultimately show ?thesis using d2 d0 by (intro conjI)
qed

lemma validate_input_rejects:
  assumes "odds_vector input_data = []
           \<or> (\<exists>p\<in>set (odds_vector input_data). p < 0 \<or> 1 < p)
           \<or> length (odds_vector input_data)
                < fcard (safe_matches input_data) + length (unsafe_matches input_data)"
  shows "\<exists>msg. validate_input input_data = Inl (ValueError msg)"
proof -
  have "\<not> list_all (\<lambda>prob. 0 \<le> prob \<and> prob \<le> 1) (odds_vector input_data)"
    if "\<exists>p\<in>set (odds_vector input_data). p < 0 \<or> 1 < p"
  proof -
    from that obtain p where "p \<in> set (odds_vector input_data)" "p < 0 \<or> 1 < p" by blast
    then have "\<exists>p\<in>set (odds_vector input_data). \<not> (0 \<le> p \<and> p \<le> 1)"
      by (intro bexI[of _ p]) auto
    then show ?thesis by (simp add: list_all_iff)
  qed
  with assms show ?thesis
    by (auto simp: validate_input_def)
qed

text \<open>
  C4. When the probability vector is empty, or some probability lies outside \<open>[0, 1]\<close>,
  or the safe and unsafe matches together outnumber the probability vector, \<open>optimize\<close>
  raises the validation error (\<open>ValueError\<close>) and returns no result; the count of random
  vectors drawn is unchanged, so no simulation has run.
\<close>
theorem invalid_request_rejected_before_simulation:
  assumes "odds_vector input_data = []
           \<or> (\<exists>p\<in>set (odds_vector input_data). p < 0 \<or> 1 < p)
           \<or> length (odds_vector input_data)
                < fcard (safe_matches input_data) + length (unsafe_matches input_data)"
  shows "\<exists>msg. optimize n input_data r execution_time k = (Inl (ValueError msg), k)"
proof -
  from validate_input_rejects[OF assms] obtain msg
    where "validate_input input_data = Inl (ValueError msg)" ..
  then have "optimize n input_data r execution_time k = (Inl (ValueError msg), k)"
    by (simp add: optimize_def)
  then show ?thesis ..
qed


theorem invalid_request_rejected_before_simulation_witness:
  "odds_vector empty_request = []
   \<and> (\<exists>p\<in>set (odds_vector bad_probability_request). p < 0 \<or> 1 < p)
   \<and> length (odds_vector overfull_request)
        < fcard (safe_matches overfull_request) + length (unsafe_matches overfull_request)
   \<and> (\<exists>msg. optimize 10000 empty_request rng_half 0 0 = (Inl (ValueError msg), 0))
   \<and> (\<exists>msg. optimize 10000 bad_probability_request rng_half 0 0 = (Inl (ValueError msg), 0))
   \<and> (\<exists>msg. optimize 10000 overfull_request rng_half 0 0 = (Inl (ValueError msg), 0))"
proof -
  have a: "odds_vector empty_request = []" by (simp add: empty_request_def)
  have b: "\<exists>p\<in>set (odds_vector bad_probability_request). p < 0 \<or> 1 < p"
    by (rule bexI[of _ "3 / 2"]) (simp_all add: bad_probability_request_def)
  have c: "length (odds_vector overfull_request)
        < fcard (safe_matches overfull_request) + length (unsafe_matches overfull_request)"
    by (simp add: overfull_request_def fcard_finsert_if)
  have "\<exists>msg. optimize 10000 empty_request rng_half 0 0 = (Inl (ValueError msg), 0)"
    by (rule invalid_request_rejected_before_simulation) (rule disjI1, rule a)
  moreover
  have "\<exists>msg. optimize 10000 bad_probability_request rng_half 0 0 = (Inl (ValueError msg), 0)"
    by (rule invalid_request_rejected_before_simulation) (rule disjI2, rule disjI1, rule b)
  moreover
  have "\<exists>msg. optimize 10000 overfull_request rng_half 0 0 = (Inl (ValueError msg), 0)"
    by (rule invalid_request_rejected_before_simulation) (rule disjI2, rule disjI2, rule c)
  ultimately show ?thesis using a b c by (intro conjI)
qed

section \<open>Properties of the selection\<close>

lemma pick_vector_loop_spec:
  "pick_vector_loop input_data comb (enumerate j ids) acc = Inr pv \<Longrightarrow>
     length pv = length acc + length ids
     \<and> take (length acc) pv = acc
     \<and> (\<forall>i<length ids. ids ! i |\<in>| safe_matches input_data \<longrightarrow>
            j + i < length (odds_vector input_data)
            \<and> pv ! (length acc + i) = (if odds_vector input_data ! (j + i) > 0.5 then 1 else 0))"
proof (induction ids arbitrary: j acc)
  case Nil
  then show ?case by simp
next
  case (Cons m ms)
  from Cons.prems obtain b where
    step: "pick_vector_loop input_data comb (enumerate (Suc j) ms) (acc @ [b]) = Inr pv"
    and safe: "m |\<in>| safe_matches input_data \<longrightarrow>
                 j < length (odds_vector input_data)
                 \<and> b = (if odds_vector input_data ! j > 0.5 then 1 else 0)"
    by (auto simp: favourite_bit_def split: if_splits sum.splits)
  from Cons.IH[OF step] have
    len: "length pv = Suc (length acc) + length ms"
    and tk: "take (Suc (length acc)) pv = acc @ [b]"
    and rest: "\<forall>i<length ms. ms ! i |\<in>| safe_matches input_data \<longrightarrow>
            Suc j + i < length (odds_vector input_data)
            \<and> pv ! (Suc (length acc) + i)
                = (if odds_vector input_data ! (Suc j + i) > 0.5 then 1 else 0)"
    by simp_all
  have tk': "take (length acc) pv = acc"
    using arg_cong[OF tk, of "take (length acc)"] by (simp add: min_def)
  have hd: "pv ! length acc = b"
    using arg_cong[OF tk, of "\<lambda>xs. xs ! length acc"] len by simp
  have "\<forall>i<length (m # ms). (m # ms) ! i |\<in>| safe_matches input_data \<longrightarrow>
            j + i < length (odds_vector input_data)
            \<and> pv ! (length acc + i) = (if odds_vector input_data ! (j + i) > 0.5 then 1 else 0)"
  proof (intro allI impI)
    fix i assume i: "i < length (m # ms)" and s: "(m # ms) ! i |\<in>| safe_matches input_data"
    show "j + i < length (odds_vector input_data)
            \<and> pv ! (length acc + i) = (if odds_vector input_data ! (j + i) > 0.5 then 1 else 0)"
    proof (cases i)
      case 0
      with s safe hd show ?thesis by simp
    next
      case (Suc i')
      with i s rest show ?thesis by simp
    qed
  qed
  with len tk' show ?case by simp
qed

lemma pick_vector_loop_succeeds:
  "j + length ids \<le> length (odds_vector input_data) \<Longrightarrow>
     \<exists>pv. pick_vector_loop input_data comb (enumerate j ids) acc = Inr pv"
proof (induction ids arbitrary: j acc)
  case Nil
  then show ?case by simp
next
  case (Cons m ms)
  have j: "j < length (odds_vector input_data)" using Cons.prems by simp
  have "Suc j + length ms \<le> length (odds_vector input_data)" using Cons.prems by simp
  from Cons.IH[OF this] show ?case using j by (simp add: favourite_bit_def)
qed

lemma create_pick_vector_succeeds:
  assumes "length (ids_or_empty (match_ids input_data)) \<le> length (odds_vector input_data)"
  shows "\<exists>pv. create_pick_vector input_data comb = Inr pv
              \<and> length pv = length (ids_or_empty (match_ids input_data))"
proof -
  from pick_vector_loop_succeeds[of 0 "ids_or_empty (match_ids input_data)" input_data comb "[]"]
    assms obtain pv
    where pv: "pick_vector_loop input_data comb
                 (enumerate 0 (ids_or_empty (match_ids input_data))) [] = Inr pv"
    by auto
  from pick_vector_loop_spec[OF pv] pv show ?thesis
    by (simp add: create_pick_vector_def)
qed

lemma sum_list_nonneg_drop:
  fixes xs :: "real list"
  assumes "\<forall>x\<in>set xs. 0 \<le> x"
  shows "0 \<le> sum_list (slice_from t xs)"
proof -
  have "set (slice_from t xs) \<subseteq> set xs"
    by (auto simp: slice_from_def dest: in_set_dropD)
  with assms show ?thesis by (intro sum_list_nonneg) auto
qed

lemma evaluate_combination_succeeds:
  assumes "length (ids_or_empty (match_ids input_data)) \<le> length (odds_vector input_data)"
    and "length (ids_or_empty (match_ids input_data)) \<le> 9" and "0 < n"
  shows "\<exists>c. evaluate_combination n input_data r comb k = (Inr c, k + n)
             \<and> combination c = comb
             \<and> length (score_distribution c) = 10
             \<and> sum_list (score_distribution c) = 1
             \<and> 0 \<le> target_probability c"
proof -
  from create_pick_vector_succeeds[OF assms(1)] obtain pv
    where pv: "create_pick_vector input_data comb = Inr pv"
      and len: "length pv = length (ids_or_empty (match_ids input_data))" by blast
  have "length (odds_vector input_data) \<le> 9 \<or> length pv \<le> 9" using len assms(2) by simp
  from simulation_short_slate[OF this assms(3)] obtain d
    where d: "monte_carlo_simulation n (odds_vector input_data) pv r k = (Inr d, k + n)"
      and props: "length d = 10" "sum_list d = 1" "\<forall>x\<in>set d. 0 \<le> x" by blast
  show ?thesis
    using pv d props sum_list_nonneg_drop[OF props(3)]
    by (simp add: evaluate_combination_def)
qed

lemma selected_new:
  assumes "selected best bs results" and "bs < target_probability c"
  shows "selected (Some c) (target_probability c) (results @ [c])"
proof -
  have le: "\<forall>x\<in>set results. target_probability x \<le> bs"
    using assms(1) by (auto simp: selected_def first_maximum_def split: option.splits)
  have "(results @ [c]) ! length results = c" by simp
  moreover have "\<forall>j<length results.
      target_probability ((results @ [c]) ! j) < target_probability c"
  proof (intro allI impI)
    fix j assume j: "j < length results"
    then have "target_probability (results ! j) \<le> bs" using le by simp
    with assms(2) j show "target_probability ((results @ [c]) ! j) < target_probability c"
      by (simp add: nth_append)
  qed
  moreover have "\<forall>x\<in>set (results @ [c]). target_probability x \<le> target_probability c"
  proof
    fix x assume "x \<in> set (results @ [c])"
    then have "x = c \<or> x \<in> set results" by auto
    with le assms(2) show "target_probability x \<le> target_probability c" by force
  qed
  ultimately have "first_maximum c (results @ [c])"
    unfolding first_maximum_def by (intro exI[of _ "length results"]) simp
  then show ?thesis by (simp add: selected_def)
qed

lemma selected_keep:
  assumes "selected best bs results" and "\<not> bs < target_probability c"
  shows "selected best bs (results @ [c])"
proof (cases best)
  case None
  with assms show ?thesis by (auto simp: selected_def)
next
  case (Some b)
  with assms(1) have bs: "bs = target_probability b" and fm: "first_maximum b results"
    by (simp_all add: selected_def)
  from fm obtain i where i: "i < length results" "results ! i = b"
    "\<forall>j<i. target_probability (results ! j) < target_probability b"
    "\<forall>x\<in>set results. target_probability x \<le> target_probability b"
    unfolding first_maximum_def by blast
  have "(results @ [c]) ! i = b" using i(1,2) by (simp add: nth_append)
  moreover have "\<forall>j<i. target_probability ((results @ [c]) ! j) < target_probability b"
    using i(1,3) by (simp add: nth_append)
  moreover have "\<forall>x\<in>set (results @ [c]). target_probability x \<le> target_probability b"
    using i(4) assms(2) bs by auto
  ultimately have "first_maximum b (results @ [c])"
    unfolding first_maximum_def using i(1) by (intro exI[of _ i]) simp
  with Some bs show ?thesis by (simp add: selected_def)
qed

lemma evaluate_combination_keeps_combination:
  "evaluate_combination n input_data r comb k = (Inr c, k') \<Longrightarrow> combination c = comb"
  by (auto simp: evaluate_combination_def split: sum.splits prod.splits)

lemma optimize_loop_selected:
  "optimize_loop n input_data r combos best bs results k = (Inr (best', results'), k') \<Longrightarrow>
   selected best bs results \<Longrightarrow>
     (\<exists>bs'. selected best' bs' results')
     \<and> map combination results' = map combination results @ combos"
proof (induction combos arbitrary: best bs results k)
  case Nil
  then show ?case by auto
next
  case (Cons comb rest)
  from Cons.prems(1) obtain c k1
    where ev: "evaluate_combination n input_data r comb k = (Inr c, k1)"
    by (auto split: sum.splits prod.splits)
  have cc: "combination c = comb" using ev by (rule evaluate_combination_keeps_combination)
  show ?case
  proof (cases "bs < target_probability c")
    case True
    with Cons.prems(1) ev have
      "optimize_loop n input_data r rest (Some c) (target_probability c) (results @ [c]) k1
         = (Inr (best', results'), k')" by simp
    from Cons.IH[OF this selected_new[OF Cons.prems(2) True]] cc show ?thesis by simp
  next
    case False
    with Cons.prems(1) ev have
      "optimize_loop n input_data r rest best bs (results @ [c]) k1
         = (Inr (best', results'), k')" by simp
    from Cons.IH[OF this selected_keep[OF Cons.prems(2) False]] cc show ?thesis by simp
  qed
qed

lemma optimize_loop_runs:
  assumes ev: "\<And>comb k. \<exists>c. evaluate_combination n input_data r comb k = (Inr c, k + n) \<and> Q c"
  shows "\<forall>c\<in>set results. Q c \<Longrightarrow>
         \<exists>best' results'.
           optimize_loop n input_data r combos best bs results k
             = (Inr (best', results'), k + n * length combos)
           \<and> length results' = length results + length combos
           \<and> (\<forall>c\<in>set results'. Q c)"
proof (induction combos arbitrary: best bs results k)
  case Nil
  then show ?case by simp
next
  case (Cons comb rest)
  from ev[of comb k] obtain c
    where c: "evaluate_combination n input_data r comb k = (Inr c, k + n)" "Q c" by blast
  have q: "\<forall>x\<in>set (results @ [c]). Q x" using Cons.prems c(2) by simp
  have k: "k + n + n * length rest = k + n * length (comb # rest)" by simp
  show ?case
  proof (cases "bs < target_probability c")
    case True
    from Cons.IH[OF q, of "Some c" "target_probability c" "k + n"] c(1) True
    show ?thesis unfolding k[symmetric] by auto
  next
    case False
    from Cons.IH[OF q, of best bs "k + n"] c(1) False
    show ?thesis unfolding k[symmetric] by auto
  qed
qed

lemma first_index_finds:
  "\<exists>x\<in>set xs. P x \<Longrightarrow> \<exists>i. first_index P j xs = Inr i"
  by (induction xs arbitrary: j) auto

lemma cumsum_from_last:
  "xs \<noteq> [] \<Longrightarrow> cumsum_from a xs \<noteq> [] \<and> last (cumsum_from a xs) = a + sum_list xs"
proof (induction xs arbitrary: a)
  case Nil
  then show ?case by simp
next
  case (Cons x xs)
  show ?case
  proof (cases "xs = []")
    case True
    then show ?thesis by simp
  next
    case False
    from Cons.IH[OF False, of "a + x"] show ?thesis by (simp add: add.assoc)
  qed
qed

lemma cumsum_reaches_total:
  assumes "xs \<noteq> []"
  shows "sum_list xs \<in> set (cumsum xs)"
proof -
  from cumsum_from_last[OF assms, of 0]
  have "cumsum xs \<noteq> []" "last (cumsum xs) = sum_list xs" by (simp_all add: cumsum_def)
  then show ?thesis using last_in_set by metis
qed

lemma index_of_less: "x \<in> set ys \<Longrightarrow> index_of ys x < length ys"
  by (induction ys) auto

lemma index_of_nth: "distinct ys \<Longrightarrow> i < length ys \<Longrightarrow> index_of ys (ys ! i) = i"
proof (induction ys arbitrary: i)
  case Nil
  then show ?case by simp
next
  case (Cons y ys)
  then show ?case by (cases i) auto
qed

lemma optimal_picks_loop_succeeds:
  "\<forall>m\<in>set ms. index_of (ids_or_empty (match_ids input_data)) m
                < length (odds_vector input_data) \<Longrightarrow>
     \<exists>ps. optimal_picks_loop input_data best ms acc = Inr ps"
proof (induction ms arbitrary: acc)
  case Nil
  then show ?case by simp
next
  case (Cons m ms)
  then show ?case by (simp add: favourite_side_def)
qed

lemma optimal_picks_loop_spec:
  "optimal_picks_loop input_data best ms acc = Inr ps \<Longrightarrow>
     length ps = length acc + length ms
     \<and> take (length acc) ps = acc
     \<and> (\<forall>i<length ms. ms ! i |\<in>| safe_matches input_data \<longrightarrow>
           ps ! (length acc + i) =
             (if odds_vector input_data ! index_of (ids_or_empty (match_ids input_data)) (ms ! i)
                   > 0.5
              then ''team_a'' else ''team_b''))"
proof (induction ms arbitrary: acc)
  case Nil
  then show ?case by simp
next
  case (Cons m ms)
  from Cons.prems obtain s where
    step: "optimal_picks_loop input_data best ms (acc @ [s]) = Inr ps"
    and safe: "m |\<in>| safe_matches input_data \<longrightarrow>
                 s = (if odds_vector input_data ! index_of (ids_or_empty (match_ids input_data)) m
                          > 0.5
                      then ''team_a'' else ''team_b'')"
    by (auto simp: favourite_side_def split: if_splits sum.splits)
  from Cons.IH[OF step] have
    len: "length ps = Suc (length acc) + length ms"
    and tk: "take (Suc (length acc)) ps = acc @ [s]"
    and rest: "\<forall>i<length ms. ms ! i |\<in>| safe_matches input_data \<longrightarrow>
           ps ! (Suc (length acc) + i) =
             (if odds_vector input_data ! index_of (ids_or_empty (match_ids input_data)) (ms ! i)
                   > 0.5
              then ''team_a'' else ''team_b'')"
    by simp_all
  have tk': "take (length acc) ps = acc"
    using arg_cong[OF tk, of "take (length acc)"] by (simp add: min_def)
  have hd: "ps ! length acc = s"
    using arg_cong[OF tk, of "\<lambda>xs. xs ! length acc"] len by simp
  have "\<forall>i<length (m # ms). (m # ms) ! i |\<in>| safe_matches input_data \<longrightarrow>
           ps ! (length acc + i) =
             (if odds_vector input_data
                   ! index_of (ids_or_empty (match_ids input_data)) ((m # ms) ! i) > 0.5
              then ''team_a'' else ''team_b'')"
  proof (intro allI impI)
    fix i assume i: "i < length (m # ms)" and s: "(m # ms) ! i |\<in>| safe_matches input_data"
    show "ps ! (length acc + i) =
             (if odds_vector input_data
                   ! index_of (ids_or_empty (match_ids input_data)) ((m # ms) ! i) > 0.5
              then ''team_a'' else ''team_b'')"
    proof (cases i)
      case 0
      with s safe hd show ?thesis by simp
    next
      case (Suc i')
      with i s rest show ?thesis by simp
    qed
  qed
  with len tk' show ?case by simp
qed

lemma create_result_fields:
  "create_result input_data best results t = Inr res \<Longrightarrow>
     \<exists>b. best = Some b
        \<and> result_expected_score res = expected_score b
        \<and> result_score_distribution res = score_distribution b
        \<and> risk_analysis res = generate_risk_analysis input_data b
        \<and> optimal_picks_loop input_data b (ids_or_empty (match_ids input_data)) []
             = Inr (optimal_picks res)"
  by (auto simp: create_result_def Let_def split: option.splits sum.splits)

lemma create_result_succeeds:
  assumes "sum_list (score_distribution b) = 1" and "score_distribution b \<noteq> []"
    and "length (ids_or_empty (match_ids input_data)) \<le> length (odds_vector input_data)"
  shows "\<exists>res. create_result input_data (Some b) results t = Inr res"
proof -
  let ?cum = "cumsum (score_distribution b)"
  have one: "(1::real) \<in> set ?cum" using cumsum_reaches_total[OF assms(2)] assms(1) by simp
  have "\<exists>x\<in>set ?cum. x \<ge> 0.025" using one by (intro bexI[of _ 1]) simp_all
  from first_index_finds[OF this] obtain lo
    where lo: "first_index (\<lambda>cum. cum \<ge> 0.025) 0 ?cum = Inr lo" by blast
  have "\<exists>x\<in>set ?cum. x \<ge> 0.975" using one by (intro bexI[of _ 1]) simp_all
  from first_index_finds[OF this] obtain hi
    where hi: "first_index (\<lambda>cum. cum \<ge> 0.975) 0 ?cum = Inr hi" by blast
  have "\<forall>m\<in>set (ids_or_empty (match_ids input_data)).
          index_of (ids_or_empty (match_ids input_data)) m < length (odds_vector input_data)"
    using index_of_less assms(3) by fastforce
  from optimal_picks_loop_succeeds[OF this] obtain ps
    where ps: "optimal_picks_loop input_data b (ids_or_empty (match_ids input_data)) []
                 = Inr ps" by blast
  show ?thesis
    unfolding create_result_def Let_def option.case lo hi sum.case ps by simp
qed

lemma optimize_Inr:
  "optimize n input_data r t k = (Inr res, k') \<Longrightarrow>
     \<exists>best results.
       optimize_loop n input_data r (generate_unsafe_combinations input_data) None (- 1) [] k
         = (Inr (best, results), k')
       \<and> create_result input_data best results t = Inr res"
  by (auto simp: optimize_def split: sum.splits prod.splits)

lemma strategy_confidence_generate:
  "strategy_confidence (generate_risk_analysis input_data b) = min (expected_score b / 9) 1"
  by (simp add: generate_risk_analysis_def Let_def)

lemma optimize_succeeds:
  assumes "validate_input input_data = Inr ()"
    and "length (ids_or_empty (match_ids input_data)) \<le> length (odds_vector input_data)"
    and "length (ids_or_empty (match_ids input_data)) \<le> 9" and "0 < n"
  shows "\<exists>res. optimize n input_data r t k
                 = (Inr res, k + n * 2 ^ length (unsafe_matches input_data))"
proof -
  let ?Q = "\<lambda>c. length (score_distribution c) = 10 \<and> sum_list (score_distribution c) = 1
                 \<and> 0 \<le> target_probability c"
  let ?combos = "generate_unsafe_combinations input_data"
  have ev: "\<exists>c. evaluate_combination n input_data r comb k = (Inr c, k + n) \<and> ?Q c"
    for comb k
    using evaluate_combination_succeeds[OF assms(2,3,4), of r comb k] by blast
  have "\<forall>c\<in>set []. ?Q c" by simp
  from optimize_loop_runs[of n input_data r ?Q "[]" ?combos None "- 1" k, OF ev this]
  obtain best results where
    run: "optimize_loop n input_data r ?combos None (- 1) [] k
            = (Inr (best, results), k + n * length ?combos)"
    and len: "length results = length ?combos"
    and q: "\<forall>c\<in>set results. ?Q c"
    by auto
  have sel0: "selected None (- 1) []" by (simp add: selected_def)
  from optimize_loop_selected[OF run sel0] obtain bs where sel: "selected best bs results"
    by blast
  have "0 < length results" using len by (simp add: length_combinations)
  then have ne: "results \<noteq> []" by simp
  obtain b where b: "best = Some b" "b \<in> set results"
  proof (cases best)
    case None
    from ne obtain c where c: "c \<in> set results" by (cases results) auto
    with sel None have "target_probability c \<le> - 1" by (simp add: selected_def)
    moreover have "0 \<le> target_probability c" using q c by simp
    ultimately show ?thesis by simp
  next
    case (Some b)
    with sel have "first_maximum b results" by (simp add: selected_def)
    then have "b \<in> set results" by (auto simp: first_maximum_def)
    with Some that show ?thesis by simp
  qed
  have "score_distribution b \<noteq> []" "sum_list (score_distribution b) = 1"
    using q b(2) by auto
  from create_result_succeeds[OF this(2) this(1) assms(2), of results t] obtain res
    where "create_result input_data (Some b) results t = Inr res" by blast
  with run b(1) assms(1) show ?thesis
    by (simp add: optimize_def length_combinations)
qed

text \<open>The equations that evaluate a run of \<open>optimize\<close> on a concrete request.\<close>

lemmas run_simps =
  optimize_def validate_input_def generate_unsafe_combinations_def sides_def
  validate_swiss_constraints_def fcard_finsert_if evaluate_combination_def
  create_pick_vector_def ids_or_empty_def favourite_bit_def monte_carlo_simulation_def
  trial_scores_def simulate_outcomes_def correct_picks_def rng_half_def replicate_10
  upt_conv_Cons slice_from_def weighted_sum_def create_result_def cumsum_def
  generate_risk_analysis_def favourite_side_def Let_def

text \<open>
  C1, as the code has it. Whenever \<open>optimize\<close> returns a result, the winner is the
  first-enumerated candidate among those with the highest target probability: the
  candidates are evaluated in the order of enumeration, every earlier candidate has a
  strictly smaller target probability than the winner and no candidate has a larger one.
  The expected score plays no part in the choice.
\<close>
theorem optimize_selects_first_maximum:
  assumes "optimize n input_data r t k = (Inr res, k')"
  shows "\<exists>best results.
           optimize_loop n input_data r (generate_unsafe_combinations input_data)
               None (- 1) [] k = (Inr (Some best, results), k')
           \<and> map combination results = generate_unsafe_combinations input_data
           \<and> first_maximum best results
           \<and> result_expected_score res = expected_score best
           \<and> result_score_distribution res = score_distribution best"
proof -
  from optimize_Inr[OF assms] obtain best results where
    run: "optimize_loop n input_data r (generate_unsafe_combinations input_data)
               None (- 1) [] k = (Inr (best, results), k')"
    and cr: "create_result input_data best results t = Inr res" by blast
  from create_result_fields[OF cr] obtain b where
    b: "best = Some b" "result_expected_score res = expected_score b"
       "result_score_distribution res = score_distribution b" by blast
  have "selected None (- 1) []" by (simp add: selected_def)
  from optimize_loop_selected[OF run this] obtain bs where
    "selected best bs results"
    "map combination results = generate_unsafe_combinations input_data" by auto
  with b run show ?thesis by (auto simp: selected_def)
qed

theorem optimize_selects_first_maximum_witness:
  "\<exists>res. optimize 1 tie_request rng_half 0 0 = (Inr res, 2)
      \<and> (\<exists>best results.
            optimize_loop 1 tie_request rng_half (generate_unsafe_combinations tie_request)
                None (- 1) [] 0 = (Inr (Some best, results), 2)
            \<and> map combination results = generate_unsafe_combinations tie_request
            \<and> first_maximum best results
            \<and> result_expected_score res = expected_score best
            \<and> result_score_distribution res = score_distribution best)"
proof -
  have v: "validate_input tie_request = Inr ()"
    by (simp add: validate_input_def tie_request_def fcard_finsert_if)
  have l: "length (ids_or_empty (match_ids tie_request)) \<le> length (odds_vector tie_request)"
    "length (ids_or_empty (match_ids tie_request)) \<le> 9"
    by (simp_all add: tie_request_def ids_or_empty_def)
  from optimize_succeeds[OF v l, of 1 rng_half 0 0] obtain res
    where res: "optimize 1 tie_request rng_half 0 0 = (Inr res, 2)"
    by (auto simp: tie_request_def)
  from optimize_selects_first_maximum[OF res] res show ?thesis by blast
qed

text \<open>
  C1 as stated fails. Two matches with probabilities 0 and 1, the first unsafe, target
  score 1: both candidates reach the target with probability 1; the second (\<open>team_b\<close>
  for the first match) has expected score 2, the first has expected score 1, and the
  first is returned.
\<close>
theorem tie_break_counterexample:
  "selection_summary
     (optimize_loop 1 tie_request rng_half (generate_unsafe_combinations tie_request)
        None (- 1) [] 0) = Inr (Some 1, [(1, 1), (1, 2)])
   \<and> map_sum id result_expected_score (fst (optimize 1 tie_request rng_half 0 0)) = Inr 1
   \<and> map_sum id optimal_picks (fst (optimize 1 tie_request rng_half 0 0))
        = Inr [''team_a'', ''team_a'']"
  by (simp add: selection_summary_def tie_request_def run_simps)

text \<open>
  C5, as the code has it. There is no enumeration ceiling. For every request that passes
  validation and lists at most nine matches (none beyond the probability vector), with
  at least one trial per simulation, \<open>optimize\<close> enumerates all \<open>2 ^ U\<close> combinations,
  runs the simulation for each (\<open>n * 2 ^ U\<close> random vectors drawn) and returns a result,
  however large \<open>U\<close> is.
\<close>
theorem optimize_enumerates_every_U:
  assumes "validate_input input_data = Inr ()"
    and "length (ids_or_empty (match_ids input_data)) \<le> length (odds_vector input_data)"
    and "length (ids_or_empty (match_ids input_data)) \<le> 9" and "0 < n"
  shows "length (generate_unsafe_combinations input_data)
           = 2 ^ length (unsafe_matches input_data)
         \<and> (\<exists>res. optimize n input_data r t k
                 = (Inr res, k + n * 2 ^ length (unsafe_matches input_data)))"
  using optimize_succeeds[OF assms] length_combinations by blast

theorem optimize_enumerates_every_U_witness:
  "validate_input two_unsafe_request = Inr ()
   \<and> length (ids_or_empty (match_ids two_unsafe_request))
        \<le> length (odds_vector two_unsafe_request)
   \<and> length (ids_or_empty (match_ids two_unsafe_request)) \<le> 9
   \<and> (0::nat) < 10000
   \<and> length (generate_unsafe_combinations two_unsafe_request) = 4
   \<and> (\<exists>res. optimize 10000 two_unsafe_request rng_half 0 0 = (Inr res, 40000))"
proof -
  have v: "validate_input two_unsafe_request = Inr ()"
    by (simp add: validate_input_def two_unsafe_request_def)
  have l: "length (ids_or_empty (match_ids two_unsafe_request))
             \<le> length (odds_vector two_unsafe_request)"
    "length (ids_or_empty (match_ids two_unsafe_request)) \<le> 9"
    by (simp_all add: two_unsafe_request_def ids_or_empty_def)
  have n: "(0::nat) < 10000" by simp
  have u: "length (unsafe_matches two_unsafe_request) = 2"
    by (simp add: two_unsafe_request_def)
  from optimize_enumerates_every_U[OF v l n, of rng_half 0 0]
  have "length (generate_unsafe_combinations two_unsafe_request) = 4"
    "\<exists>res. optimize 10000 two_unsafe_request rng_half 0 0 = (Inr res, 40000)"
    unfolding u by simp_all
  with v l n show ?thesis by (intro conjI)
qed

text \<open>
  C5 as stated fails: a request with 21 unsafe matches is not rejected; \<open>optimize\<close>
  returns a result after \<open>2 ^ 21 = 2097152\<close> simulations of one trial each.
\<close>
theorem no_ceiling_counterexample:
  "length (unsafe_matches wide_request) = 21
   \<and> \<not> isl (fst (optimize 1 wide_request rng_half 0 0))
   \<and> snd (optimize 1 wide_request rng_half 0 0) = 2097152"
proof -
  have u: "length (unsafe_matches wide_request) = 21" by (simp add: wide_request_def)
  have "list_all (\<lambda>prob. 0 \<le> prob \<and> prob \<le> 1) (replicate 21 (1 / 2 :: real))"
    by (simp add: list_all_iff)
  then have v: "validate_input wide_request = Inr ()"
    by (simp add: validate_input_def wide_request_def)
  have l: "length (ids_or_empty (match_ids wide_request)) \<le> length (odds_vector wide_request)"
    "length (ids_or_empty (match_ids wide_request)) \<le> 9"
    by (simp_all add: wide_request_def ids_or_empty_def)
  from optimize_succeeds[OF v l, of 1 rng_half 0 0] obtain res
    where "optimize 1 wide_request rng_half 0 0 = (Inr res, 2 ^ 21)"
    unfolding u by auto
  with u show ?thesis by simp
qed

text \<open>
  C6, as the code has it. For a safe match (at position \<open>i\<close> of a repetition-free list of
  match identifiers), the pick is side A exactly when the probability is greater than
  \<open>0.5\<close>, and side B otherwise; so at exactly \<open>0.5\<close> the pick is side B. This holds for
  the pick vector of every candidate and for \<open>optimal_picks\<close> of every result.
\<close>
theorem safe_pick_follows_half_threshold:
  assumes "match_ids input_data = Some ids" and "distinct ids"
    and "i < length ids" and "ids ! i |\<in>| safe_matches input_data"
  shows "(\<forall>comb pv. create_pick_vector input_data comb = Inr pv \<longrightarrow>
            pv ! i = (if odds_vector input_data ! i > 1 / 2 then 1 else 0))
         \<and> (\<forall>n r t k res k'. optimize n input_data r t k = (Inr res, k') \<longrightarrow>
              optimal_picks res ! i =
                (if odds_vector input_data ! i > 1 / 2 then ''team_a'' else ''team_b''))"
proof (intro conjI allI impI)
  fix comb pv assume "create_pick_vector input_data comb = Inr pv"
  then have "pick_vector_loop input_data comb (enumerate 0 ids) [] = Inr pv"
    using assms(1) by (simp add: create_pick_vector_def ids_or_empty_def)
  from pick_vector_loop_spec[OF this] assms(3,4)
  show "pv ! i = (if odds_vector input_data ! i > 1 / 2 then 1 else 0)" by simp
next
  fix n r t k res k' assume "optimize n input_data r t k = (Inr res, k')"
  from optimize_Inr[OF this] obtain best results where
    "create_result input_data best results t = Inr res" by blast
  from create_result_fields[OF this] obtain b where
    "optimal_picks_loop input_data b (ids_or_empty (match_ids input_data)) []
       = Inr (optimal_picks res)" by blast
  then have "optimal_picks_loop input_data b ids [] = Inr (optimal_picks res)"
    using assms(1) by (simp add: ids_or_empty_def)
  from optimal_picks_loop_spec[OF this] assms(3,4)
  have "optimal_picks res ! i =
          (if odds_vector input_data ! index_of (ids_or_empty (match_ids input_data)) (ids ! i)
                > 0.5
           then ''team_a'' else ''team_b'')" by simp
  moreover have "index_of (ids_or_empty (match_ids input_data)) (ids ! i) = i"
    using assms(1,2,3) by (simp add: ids_or_empty_def index_of_nth)
  ultimately show "optimal_picks res ! i =
      (if odds_vector input_data ! i > 1 / 2 then ''team_a'' else ''team_b'')" by simp
qed

theorem safe_pick_follows_half_threshold_witness:
  "match_ids toss_up_request = Some [''m1''] \<and> distinct [''m1''] \<and> (0::nat) < length [''m1'']
   \<and> [''m1''] ! 0 |\<in>| safe_matches toss_up_request
   \<and> create_pick_vector toss_up_request Map.empty = Inr [0]
   \<and> [0 :: int] ! 0 = (if odds_vector toss_up_request ! 0 > 1 / 2 then 1 else 0)"
proof -
  have a: "match_ids toss_up_request = Some [''m1'']" by (simp add: toss_up_request_def)
  have b: "distinct [''m1'']" by simp
  have c: "(0::nat) < length [''m1'']" by simp
  have d: "[''m1''] ! 0 |\<in>| safe_matches toss_up_request" by (simp add: toss_up_request_def)
  have e: "create_pick_vector toss_up_request Map.empty = Inr [0]"
    by (simp add: toss_up_request_def create_pick_vector_def ids_or_empty_def
          favourite_bit_def)
  from safe_pick_follows_half_threshold[OF a b c d] e
  have "[0 :: int] ! 0 = (if odds_vector toss_up_request ! 0 > 1 / 2 then 1 else 0)"
    by blast
  with a b c d e show ?thesis by (intro conjI)
qed

text \<open>
  C6 as stated fails at probability exactly \<open>0.5\<close>: the safe match is picked as
  \<open>team_b\<close> (bit 0), not \<open>team_a\<close>.
\<close>
theorem toss_up_counterexample:
  "odds_vector toss_up_request ! 0 = 1 / 2
   \<and> ''m1'' |\<in>| safe_matches toss_up_request
   \<and> create_pick_vector toss_up_request Map.empty = Inr [0]
   \<and> map_sum id optimal_picks (fst (optimize 1 toss_up_request rng_half 0 0))
        = Inr [''team_b'']"
  by (simp add: toss_up_request_def run_simps)

text \<open>
  C7, as the code has it. In every result of \<open>optimize\<close>, \<open>strategy_confidence\<close> is
  \<open>min (expected_score / 9) 1\<close>: the divisor is the constant 9, whatever the length of
  the slate.
\<close>
theorem strategy_confidence_ninth:
  assumes "optimize n input_data r t k = (Inr res, k')"
  shows "strategy_confidence (risk_analysis res) = min (result_expected_score res / 9) 1"
proof -
  from optimize_Inr[OF assms] obtain best results where
    "create_result input_data best results t = Inr res" by blast
  from create_result_fields[OF this] obtain b where
    "result_expected_score res = expected_score b"
    "risk_analysis res = generate_risk_analysis input_data b" by blast
  then show ?thesis by (simp add: strategy_confidence_generate)
qed

theorem strategy_confidence_ninth_witness:
  "\<exists>res. optimize 1 single_match_request rng_half 0 0 = (Inr res, 1)
      \<and> strategy_confidence (risk_analysis res) = min (result_expected_score res / 9) 1"
proof -
  have v: "validate_input single_match_request = Inr ()"
    by (simp add: validate_input_def single_match_request_def fcard_finsert_if)
  have l: "length (ids_or_empty (match_ids single_match_request))
             \<le> length (odds_vector single_match_request)"
    "length (ids_or_empty (match_ids single_match_request)) \<le> 9"
    by (simp_all add: single_match_request_def ids_or_empty_def)
  from optimize_succeeds[OF v l, of 1 rng_half 0 0] obtain res
    where res: "optimize 1 single_match_request rng_half 0 0 = (Inr res, 1)"
    by (auto simp: single_match_request_def)
  from strategy_confidence_ninth[OF res] res show ?thesis by blast
qed

text \<open>
  C7 as stated fails on a slate of one match won with certainty: the expected score is 1
  and \<open>strategy_confidence\<close> is \<open>1 / 9\<close>, not \<open>min (1 / 1) 1 = 1\<close>.
\<close>
theorem strategy_confidence_counterexample:
  "map_sum id result_expected_score (fst (optimize 1 single_match_request rng_half 0 0))
     = Inr 1
   \<and> map_sum id (strategy_confidence \<circ> risk_analysis)
        (fst (optimize 1 single_match_request rng_half 0 0)) = Inr (1 / 9)
   \<and> length (ids_or_empty (match_ids single_match_request)) = 1
   \<and> min (1 / real (length (ids_or_empty (match_ids single_match_request)))) 1 \<noteq> (1 / 9 :: real)"
  by (simp add: single_match_request_def run_simps)

section \<open>Properties of the classifier\<close>

lemma classifier_confidence_formula:
  "match_odds \<noteq> [] \<Longrightarrow>
     confidence (classify_single_match th match_odds)
       = min (implied_win_rate (classify_single_match th match_odds))
             (1 - implied_win_rate (classify_single_match th match_odds)) * 2"
  by (simp add: classify_single_match_def Let_def split: prod.splits)

text \<open>
  C8. The code computes \<open>min p (1 - p) * 2\<close> for the favoured side's probability \<open>p\<close>. At
  an even consensus (\<open>p = 1/2\<close>) this is 1, and at certainty (\<open>p = 1\<close>) it is 0, while
  the path for an empty list of observations reports confidence 0 at \<open>p = 1/2\<close>.
\<close>
theorem classifier_confidence_at_even_odds:
  "implied_win_rate (classify_single_match (3 / 4) [even_observation]) = 1 / 2
   \<and> confidence (classify_single_match (3 / 4) [even_observation]) = 1
   \<and> implied_win_rate (classify_single_match (3 / 4) [certain_observation]) = 1
   \<and> confidence (classify_single_match (3 / 4) [certain_observation]) = 0
   \<and> implied_win_rate (classify_single_match (3 / 4) []) = 1 / 2
   \<and> confidence (classify_single_match (3 / 4) []) = 0"
  by (simp add: classify_single_match_def even_observation_def certain_observation_def
        weights_def Let_def)

end
